theory Spec2Isabelle
  imports Complex_Main "HOL-Library.Log_Nat"
begin

section \<open>Errors\<close>

text \<open>
  The Python exceptions the modelled code can raise. A function that can raise returns
  a sum, with \<open>Inl\<close> for the exception.
\<close>

datatype py_error = IndexError | ZeroDivisionError | OverflowError | TypeError | FileNotFoundError

section \<open>Floating-point numbers\<close>

text \<open>
  A finite binary floating-point number is the rational it stands for. \<open>exponent x\<close> is
  the integer \<open>e\<close> with \<open>2^e \<le> x < 2^(e+1)\<close>, for a positive \<open>x\<close>.
\<close>

definition exponent :: "rat \<Rightarrow> int" where
  "exponent x = (case quotient_of x of (a, b) \<Rightarrow>
     let d = bitlen a - bitlen b in if power_int 2 d \<le> x then d else d - 1)"

text \<open>Rounding to the nearest integer, a tie going to the even one.\<close>

definition round_half_even :: "rat \<Rightarrow> int" where
  "round_half_even y = (let f = \<lfloor>y\<rfloor>; d = y - of_int f in
     if d < 1 / 2 then f else if 1 / 2 < d then f + 1 else if even f then f else f + 1)"

text \<open>
  \<open>float_round p emin x\<close> rounds \<open>x\<close> to the nearest number with a significand of \<open>p\<close>
  bits and an exponent of at least \<open>emin\<close> (below it the numbers are subnormal), ties to
  even; the exponent is not bounded above here, the callers handle the overflow.
  IEEE binary64 is \<open>p = 53\<close>, \<open>emin = -1022\<close>, with overflow at \<open>2^1024\<close>; binary32 is
  \<open>p = 24\<close>, \<open>emin = -126\<close>, with overflow at \<open>2^128\<close>.
\<close>

definition float_round :: "nat \<Rightarrow> int \<Rightarrow> rat \<Rightarrow> rat" where
  "float_round p emin x = (if x = 0 then 0 else
     let e = max emin (exponent \<bar>x\<bar>); q = power_int 2 (e - int p + 1)
     in sgn x * of_int (round_half_even (\<bar>x\<bar> / q)) * q)"

text \<open>
  Python's \<open>a / b\<close> on two \<open>int\<close>: the quotient correctly rounded to binary64;
  \<open>ZeroDivisionError\<close> when \<open>b\<close> is zero, \<open>OverflowError\<close> when the result is too large
  for a float.
\<close>

definition truediv :: "int \<Rightarrow> int \<Rightarrow> py_error + rat" where
  "truediv a b = (if b = 0 then Inl ZeroDivisionError
     else let q = float_round 53 (- 1022) (of_int a / of_int b)
          in if 2 ^ 1024 \<le> \<bar>q\<bar> then Inl OverflowError else Inr q)"

text \<open>\<open>math.ceil\<close> of a finite float.\<close>

definition math_ceil :: "rat \<Rightarrow> int" where
  "math_ceil x = \<lceil>x\<rceil>"

text \<open>
  A 32-bit float that may be infinite. \<open>float32\<close> converts a Python float to it, as JAX
  does with a Python scalar that meets a 32-bit array; \<open>less_float u t\<close> is \<open>u < t\<close> for
  a finite \<open>u\<close>.
\<close>

datatype float = Finite rat | PosInf | NegInf

definition float32 :: "rat \<Rightarrow> float" where
  "float32 x = (let y = float_round 24 (- 126) x
     in if 2 ^ 128 \<le> y then PosInf else if y \<le> - (2 ^ 128) then NegInf else Finite y)"

fun less_float :: "rat \<Rightarrow> float \<Rightarrow> bool" where
  "less_float u (Finite t) = (u < t)"
| "less_float u PosInf = True"
| "less_float u NegInf = False"

section \<open>experiments/fastmri/utils.py\<close>

subsection \<open>Arrays\<close>

text \<open>
  An array with at least one axis: \<open>Vec\<close> holds the entries along the last axis,
  \<open>Nd\<close> stacks arrays along a leading axis. Floating-point entries are modelled by
  \<open>real\<close>, complex entries by \<open>complex\<close>.
\<close>

datatype 'a ndarray = Vec "'a list" | Nd "'a ndarray list"

text \<open>The last axis of the array has even length.\<close>

fun last_axis_even :: "'a ndarray \<Rightarrow> bool" where
  "last_axis_even (Vec xs) = even (length xs)"
| "last_axis_even (Nd as) = list_all last_axis_even as"

text \<open>
  \<open>jnp.array_split(x, 2, axis=-1)\<close> cuts the last axis into two sections, the first
  one entry longer when the length is odd. \<open>jax.lax.complex\<close> takes the real and the
  imaginary parts; the two sections differ on the last axis only, where an operand of
  length one is broadcast to the length of the other (to length zero when the other is
  empty). Any other pair of different lengths raises: the model returns \<open>None\<close>.
\<close>

definition array_split2 :: "'a list \<Rightarrow> 'a list \<times> 'a list" where
  "array_split2 xs = (let k = length xs div 2 + length xs mod 2 in (take k xs, drop k xs))"

definition lax_complex :: "real list \<Rightarrow> real list \<Rightarrow> complex list option" where
  "lax_complex re im =
     (if length re = length im then Some (map2 Complex re im)
      else if length re = 1 then Some (map (\<lambda>y. Complex (hd re) y) im)
      else if length im = 1 then Some (map (\<lambda>x. Complex x (hd im)) re)
      else None)"

fun real2complex :: "real ndarray \<Rightarrow> complex ndarray option" where
  "real2complex (Vec xs) =
     (case array_split2 xs of (re, im) \<Rightarrow> map_option Vec (lax_complex re im))"
| "real2complex (Nd as) = map_option Nd (those (map real2complex as))"

fun complex2real :: "complex ndarray \<Rightarrow> real ndarray" where
  "complex2real (Vec zs) = Vec (map Re zs @ map Im zs)"
| "complex2real (Nd as) = Nd (map complex2real as)"

subsection \<open>make_mask\<close>

text \<open>
  An array of three axes is a list of lists of lists. \<open>has_shape3\<close> checks its shape.
\<close>

type_synonym 'a array3 = "'a list list list"

definition has_shape3 :: "'a array3 \<Rightarrow> nat \<Rightarrow> nat \<Rightarrow> nat \<Rightarrow> bool" where
  "has_shape3 A d0 d1 d2 =
     (length A = d0 \<and> list_all (\<lambda>rows. length rows = d1 \<and> list_all (\<lambda>v. length v = d2) rows) A)"

text \<open>
  A bound of a Python slice, normalised against the length \<open>n\<close> of the axis: a
  negative bound counts from the end, and bounds are clamped to \<open>0..n\<close>.
\<close>

definition slice_index :: "nat \<Rightarrow> int \<Rightarrow> nat" where
  "slice_index n i = (if i < 0 then nat (max 0 (int n + i)) else min n (nat i))"

text \<open>\<open>A.at[:, lo:hi].set(True)\<close>, for one entry of the first axis.\<close>

definition set_rows_True :: "int \<Rightarrow> int \<Rightarrow> bool list list \<Rightarrow> bool list list" where
  "set_rows_True lo hi rows =
     (let l = slice_index (length rows) lo; h = slice_index (length rows) hi
      in map (\<lambda>(i, row). if l \<le> i \<and> i < h then map (\<lambda>_. True) row else row)
           (enumerate 0 rows))"

text \<open>
  The random draw of an array of a given shape: \<open>np.random.uniform(size=shape)\<close> followed
  by \<open>jnp.asarray\<close> when the key is \<open>None\<close>, \<open>jax.random.uniform(key, shape=shape)\<close>
  otherwise. The parameter \<open>draw\<close> gives the entry drawn at each index, as it is held in
  the JAX array (a 32-bit float in JAX's default configuration).
\<close>

definition random_uniform ::
  "('k option \<Rightarrow> nat \<Rightarrow> nat \<Rightarrow> nat \<Rightarrow> rat) \<Rightarrow> 'k option \<Rightarrow> nat \<times> nat \<times> nat \<Rightarrow> rat array3" where
  "random_uniform draw key shape = (case shape of (d0, d1, d2) \<Rightarrow>
     map (\<lambda>i. map (\<lambda>j. map (\<lambda>k. draw key i j k) [0..<d2]) [0..<d1]) [0..<d0])"

text \<open>
  \<open>make_mask\<close>. The threshold \<open>200 / (320 * r - 120)\<close> is a Python float, converted to
  32 bits for the comparison with the array; then \<open>60 / r\<close> is a Python float, which
  raises \<open>ZeroDivisionError\<close> when \<open>r\<close> is zero, and \<open>math.ceil\<close> of it bounds the slice.
\<close>

definition make_mask ::
  "('k option \<Rightarrow> nat \<Rightarrow> nat \<Rightarrow> nat \<Rightarrow> rat) \<Rightarrow> int \<Rightarrow> 'k option \<Rightarrow> py_error + bool array3" where
  "make_mask draw r key =
     (let A = random_uniform draw key (1, 320, 1)
      in case truediv 200 (320 * r - 120) of
           Inl e \<Rightarrow> Inl e
         | Inr thr \<Rightarrow>
             let A = map (map (map (\<lambda>u. less_float u (float32 thr)))) A
             in case truediv 60 r of
                  Inl e \<Rightarrow> Inl e
                | Inr q \<Rightarrow> Inr (map (set_rows_True (160 - math_ceil q) (160 + math_ceil q)) A))"

section \<open>experiments/cifar/train.py\<close>

subsection \<open>Models, checkpoints and the state of a training run\<close>

text \<open>
  A denoiser is its arrays (\<open>weights\<close>, of an abstract type) and its training-mode flag.
\<close>

record 'w denoiser =
  weights :: 'w
  training :: bool

text \<open>
  What the run leaves behind: the denoiser a checkpoint was read from, the denoiser
  sampled from, the denoiser an optimisation step or a validation loss was computed with,
  and the denoiser written to a checkpoint.
\<close>

datatype 'w event =
    Loaded nat "'w denoiser"
  | Generated "'w denoiser"
  | Stepped "'w denoiser"
  | Validated "'w denoiser"
  | Sampled "'w denoiser"
  | Dumped nat "'w denoiser"

text \<open>
  The state of \<open>train\<close>: the checkpoint files \<open>checkpoint_k.pkl\<close> of the run's directory,
  the local variables \<open>previous\<close>, \<open>model\<close>, \<open>params\<close> and \<open>avrg\<close>, the training-mode
  flag held by \<open>static\<close> (the structure \<open>model.partition\<close> returns, from which
  \<open>static(params, others)\<close> builds a new module each time), and the events so far.
\<close>

record 'w state =
  files :: "nat \<Rightarrow> 'w denoiser option"
  previous :: "'w denoiser"
  model :: "'w denoiser"
  static :: bool
  params :: 'w
  avrg :: 'w
  trace :: "'w event list"

text \<open>
  The numerics \<open>train\<close> calls into: the Gaussian denoiser built from the fitted moments,
  the freshly made network, the optimiser's update of the parameters and the moving
  average.
\<close>

record 'w numerics =
  gaussian_denoiser :: "'w denoiser"
  make_model :: "'w denoiser"
  sgd_update :: "'w \<Rightarrow> 'w"
  ema :: "'w \<Rightarrow> 'w \<Rightarrow> 'w"

record config =
  laps :: nat
  epochs :: nat
  train_batches :: nat
  test_batches :: nat

subsection \<open>The statements of train, one command each\<close>

datatype cmd =
    LoadPrevious nat
  | FitMoments
  | Generate
  | ModelPrevious
  | MakeModel
  | SetMu
  | Train bool
  | Partition
  | SgdStep
  | Validate
  | Rebuild
  | Sample
  | LogMetrics
  | Dump nat

fun exec :: "'w numerics \<Rightarrow> cmd \<Rightarrow> 'w state \<Rightarrow> py_error + 'w state" where
  "exec X (LoadPrevious k) s =
     (case files s k of
        None \<Rightarrow> Inl FileNotFoundError
      | Some m \<Rightarrow> Inr (s\<lparr>previous := m, trace := trace s @ [Loaded k m]\<rparr>))"
| "exec X FitMoments s = Inr (s\<lparr>previous := gaussian_denoiser X\<rparr>)"
| "exec X Generate s = Inr (s\<lparr>trace := trace s @ [Generated (previous s)]\<rparr>)"
| "exec X ModelPrevious s = Inr (s\<lparr>model := previous s\<rparr>)"
| "exec X MakeModel s = Inr (s\<lparr>model := make_model X\<rparr>)"
| "exec X SetMu s = Inr s"
| "exec X (Train b) s = Inr (s\<lparr>model := (model s)\<lparr>training := b\<rparr>\<rparr>)"
| "exec X Partition s =
     Inr (s\<lparr>static := training (model s), params := weights (model s),
            avrg := weights (model s)\<rparr>)"
| "exec X SgdStep s =
     (let used = \<lparr>weights = params s, training = static s\<rparr>;
          p = sgd_update X (params s)
      in Inr (s\<lparr>params := p, avrg := ema X (avrg s) p, trace := trace s @ [Stepped used]\<rparr>))"
| "exec X Validate s =
     Inr (s\<lparr>trace := trace s @ [Validated \<lparr>weights = avrg s, training = static s\<rparr>]\<rparr>)"
| "exec X Rebuild s = Inr (s\<lparr>model := \<lparr>weights = avrg s, training = static s\<rparr>\<rparr>)"
| "exec X Sample s = Inr (s\<lparr>trace := trace s @ [Sampled (model s)]\<rparr>)"
| "exec X LogMetrics s = Inr s"
| "exec X (Dump k) s =
     Inr (s\<lparr>files := (files s)(k \<mapsto> model s), trace := trace s @ [Dumped k (model s)]\<rparr>)"

text \<open>
  Running commands in order. An exception stops the run: the result is the exception
  and the state it was raised in.
\<close>

fun run :: "'w numerics \<Rightarrow> cmd list \<Rightarrow> 'w state \<Rightarrow> py_error option \<times> 'w state" where
  "run X [] s = (None, s)"
| "run X (c # cs) s = (case exec X c s of Inl e \<Rightarrow> (Some e, s) | Inr s' \<Rightarrow> run X cs s')"

subsection \<open>train\<close>

definition epoch_cmds :: "config \<Rightarrow> nat \<Rightarrow> cmd list" where
  "epoch_cmds cfg epoch =
     replicate (train_batches cfg) SgdStep
     @ replicate (test_batches cfg) Validate
     @ (if (epoch + 1) mod 16 = 0 then [Rebuild, Train False, Sample, LogMetrics]
        else [LogMetrics])"

definition train_cmds :: "config \<Rightarrow> nat \<Rightarrow> cmd list" where
  "train_cmds cfg lap =
     (if lap > 0 then [LoadPrevious (lap - 1)] else [FitMoments])
     @ [Generate, Generate]
     @ (if lap > 0 then [ModelPrevious] else [MakeModel])
     @ [SetMu, Train True, Partition]
     @ concat (map (epoch_cmds cfg) [0..<epochs cfg])
     @ [Rebuild, Train False, Dump lap]"

definition train :: "'w numerics \<Rightarrow> config \<Rightarrow> nat \<Rightarrow> 'w state \<Rightarrow> py_error option \<times> 'w state" where
  "train X cfg lap s = run X (train_cmds cfg lap) s"

text \<open>
  \<open>train\<close> interrupted by an exception from outside (a failing library call, a
  cancelled job) after \<open>n\<close> of its commands.
\<close>

definition train_aborted :: "'w numerics \<Rightarrow> config \<Rightarrow> nat \<Rightarrow> nat \<Rightarrow> 'w state \<Rightarrow> py_error option \<times> 'w state" where
  "train_aborted X cfg lap n s = run X (take n (train_cmds cfg lap)) s"

text \<open>The commands of \<open>train\<close> before the checkpoint is written.\<close>

definition train_body :: "config \<Rightarrow> nat \<Rightarrow> cmd list" where
  "train_body cfg lap = butlast (train_cmds cfg lap)"

subsection \<open>The jobs of the main script\<close>

record job =
  job_lap :: nat
  dependencies :: "nat list"

definition after :: "job \<Rightarrow> nat \<Rightarrow> job" where
  "after j dep = j\<lparr>dependencies := dependencies j @ [dep]\<rparr>"

definition main_jobs :: "nat \<Rightarrow> job list" where
  "main_jobs n =
     fold (\<lambda>lap jobs.
        let jobs = jobs @ [\<lparr>job_lap = lap, dependencies = []\<rparr>]
        in if lap > 0 then jobs[lap := after (jobs ! lap) (lap - 1)] else jobs)
       [0..<n] []"

text \<open>
  The scheduler's contract for \<open>after\<close>: a job starts only when every job it depends on
  has finished with success. \<open>starts_in_order jobs finished order\<close> holds when the jobs
  of \<open>order\<close> can start and finish one after the other in that order, the jobs of
  \<open>finished\<close> having finished before.
\<close>

fun starts_in_order :: "job list \<Rightarrow> nat list \<Rightarrow> nat list \<Rightarrow> bool" where
  "starts_in_order jobs finished [] = True"
| "starts_in_order jobs finished (j # rest) =
     (j < length jobs \<and> list_all (\<lambda>d. d \<in> set finished) (dependencies (jobs ! j))
      \<and> starts_in_order jobs (finished @ [j]) rest)"

subsection \<open>Predicates on events\<close>

text \<open>
  The training-mode flag is as it should be at an event: on for an optimisation step, off
  when the model is sampled from at an evaluation and when it is written to a checkpoint.
\<close>

fun flag_respected :: "'w event \<Rightarrow> bool" where
  "flag_respected (Stepped m) = training m"
| "flag_respected (Sampled m) = (\<not> training m)"
| "flag_respected (Dumped k m) = (\<not> training m)"
| "flag_respected _ = True"

fun is_dumped :: "'w event \<Rightarrow> bool" where
  "is_dumped (Dumped k m) = True"
| "is_dumped _ = False"

fun is_stepped :: "'w event \<Rightarrow> bool" where
  "is_stepped (Stepped m) = True"
| "is_stepped _ = False"

subsection \<open>What is known of the training-mode flags\<close>

fun is_dump :: "cmd \<Rightarrow> bool" where
  "is_dump (Dump k) = True"
| "is_dump _ = False"

text \<open>
  What is known of the two flags at a point of the program: the flag held by \<open>static\<close>
  and the flag of the module bound to \<open>model\<close>, each known to be on, known to be off, or
  unknown (\<open>None\<close>). \<open>known_after\<close> is the knowledge after a command, \<open>flag_known\<close> says
  that the flag a command depends on is known to be the right one, and \<open>agrees\<close> that a
  state is as the knowledge says.
\<close>

fun known_after :: "cmd \<Rightarrow> bool option \<times> bool option \<Rightarrow> bool option \<times> bool option" where
  "known_after (Train b) (st, md) = (st, Some b)"
| "known_after Partition (st, md) = (md, md)"
| "known_after Rebuild (st, md) = (st, st)"
| "known_after ModelPrevious (st, md) = (st, None)"
| "known_after MakeModel (st, md) = (st, None)"
| "known_after c a = a"

fun flag_known :: "cmd \<Rightarrow> bool option \<times> bool option \<Rightarrow> bool" where
  "flag_known SgdStep (st, md) = (st = Some True)"
| "flag_known Sample (st, md) = (md = Some False)"
| "flag_known (Dump k) (st, md) = (md = Some False)"
| "flag_known c a = True"

fun flags_known :: "bool option \<times> bool option \<Rightarrow> cmd list \<Rightarrow> bool" where
  "flags_known a [] = True"
| "flags_known a (c # cs) = (flag_known c a \<and> flags_known (known_after c a) cs)"

definition agrees :: "bool option \<times> bool option \<Rightarrow> 'w state \<Rightarrow> bool" where
  "agrees a s =
     ((case fst a of None \<Rightarrow> True | Some b \<Rightarrow> static s = b)
      \<and> (case snd a of None \<Rightarrow> True | Some b \<Rightarrow> training (model s) = b))"

subsection \<open>A run to try the properties on\<close>

definition numerics0 :: "nat numerics" where
  "numerics0 = \<lparr>gaussian_denoiser = \<lparr>weights = 0, training = False\<rparr>,
     make_model = \<lparr>weights = 1, training = False\<rparr>,
     sgd_update = Suc, ema = (\<lambda>a p. a + p)\<rparr>"

definition config0 :: config where
  "config0 = \<lparr>laps = 2, epochs = 16, train_batches = 2, test_batches = 1\<rparr>"

definition state0 :: "nat state" where
  "state0 = \<lparr>files = [0 \<mapsto> \<lparr>weights = 5, training = False\<rparr>],
     previous = \<lparr>weights = 0, training = True\<rparr>, model = \<lparr>weights = 0, training = True\<rparr>,
     static = False, params = 0, avrg = 0, trace = []\<rparr>"

section \<open>Properties of floating-point rounding\<close>

lemma bitlen_bounds_rat:
  assumes "0 < a"
  shows "power_int 2 (bitlen a - 1) \<le> (of_int a :: rat) \<and> (of_int a :: rat) < power_int 2 (bitlen a)"
proof -
  have b: "2 ^ nat (bitlen a - 1) \<le> a" "a < 2 ^ nat (bitlen a)"
    using bitlen_bounds [OF assms] by simp_all
  have pos: "1 \<le> bitlen a" using assms bitlen_eq_zero_iff [of a] bitlen_nonneg [of a] by linarith
  have "(of_int (2 ^ nat (bitlen a - 1)) :: rat) \<le> of_int a" using b(1) by (simp only: of_int_le_iff)
  moreover have "(of_int a :: rat) < of_int (2 ^ nat (bitlen a))" using b(2) by (simp only: of_int_less_iff)
  ultimately show ?thesis using pos by (simp add: power_int_def)
qed

lemma exponent_bounds:
  assumes "0 < x"
  shows "power_int 2 (exponent x) \<le> x \<and> x < power_int 2 (exponent x + 1)"
proof -
  obtain a b where ab: "quotient_of x = (a, b)" by (cases "quotient_of x")
  have b: "0 < b" using quotient_of_denom_pos [OF ab] .
  have x: "x = of_int a / of_int b" using quotient_of_div [OF ab] .
  have a: "0 < a" using assms b x by (simp add: zero_less_divide_iff)
  define d where "d = bitlen a - bitlen b"
  note A = bitlen_bounds_rat [OF a]
  note B = bitlen_bounds_rat [OF b]
  have bpos: "(0::rat) < of_int b" using b by simp
  have p2: "(0::rat) < power_int 2 k" for k by simp
  have "x < power_int 2 (bitlen a) / power_int 2 (bitlen b - 1)"
    unfolding x using a A B p2 [of "bitlen b - 1"] by (intro frac_less) simp_all
  moreover have "power_int 2 (bitlen a) / power_int 2 (bitlen b - 1) = (power_int 2 (d + 1) :: rat)"
    by (simp add: d_def power_int_diff power_int_add)
  ultimately have up: "x < power_int 2 (d + 1)"
    by (simp only:)
  have "power_int 2 (bitlen a - 1) / power_int 2 (bitlen b) < x"
    unfolding x using A B bpos p2 [of "bitlen a - 1"] by (intro frac_less2) simp_all
  moreover have "power_int 2 (bitlen a - 1) / power_int 2 (bitlen b) = (power_int 2 (d - 1) :: rat)"
    by (simp add: d_def power_int_diff power_int_add)
  ultimately have lo: "power_int 2 (d - 1) < x"
    by (simp only:)
  have step: "power_int 2 (d - 1 + 1) = (power_int 2 d :: rat)" by simp
  show ?thesis
  proof (cases "power_int 2 d \<le> x")
    case True
    then have "exponent x = d" using ab by (simp add: exponent_def Let_def d_def)
    then show ?thesis using True up by simp
  next
    case False
    then have "exponent x = d - 1" using ab by (simp add: exponent_def Let_def d_def)
    then show ?thesis using False lo by simp
  qed
qed

lemma floor_facts: "of_int \<lfloor>y\<rfloor> \<le> (y::rat) \<and> y < of_int \<lfloor>y\<rfloor> + 1"
  by linarith

lemma round_half_even_ge1:
  assumes "1 / 2 < y"
  shows "1 \<le> round_half_even y"
proof -
  have f: "0 \<le> \<lfloor>y\<rfloor>" using assms by simp
  show ?thesis
  proof (cases "\<lfloor>y\<rfloor> = 0")
    case True
    then show ?thesis using assms by (simp add: round_half_even_def Let_def)
  next
    case False
    then have "1 \<le> \<lfloor>y\<rfloor>" using f by linarith
    then show ?thesis by (simp add: round_half_even_def Let_def)
  qed
qed

lemma round_half_even_le:
  assumes "y \<le> of_int N"
  shows "round_half_even y \<le> N"
proof -
  have f: "\<lfloor>y\<rfloor> \<le> N" using assms by (simp add: floor_le_iff)
  show ?thesis
  proof (cases "\<lfloor>y\<rfloor> = N")
    case True
    then have "y = of_int N" using assms floor_facts [of y] by simp
    then show ?thesis by (simp add: round_half_even_def Let_def)
  next
    case False
    then have "\<lfloor>y\<rfloor> + 1 \<le> N" using f by linarith
    then show ?thesis by (simp add: round_half_even_def Let_def)
  qed
qed

lemma float_round_pos:
  assumes x: "power_int 2 (emin - int p) < x" and p: "1 \<le> p"
  shows "0 < float_round p emin x"
proof -
  have x0: "0 < x" using x by (rule less_trans [OF zero_less_power_int, rotated]) simp
  define e where "e = max emin (exponent x)"
  define q :: rat where "q = power_int 2 (e - int p + 1)"
  have q: "0 < q" by (simp add: q_def)
  have "1 / 2 < x / q"
  proof (cases "emin \<le> exponent x")
    case True
    then have "e = exponent x" by (simp add: e_def)
    then have "power_int 2 e \<le> x" using exponent_bounds [OF x0] by simp
    then have "power_int 2 e / q \<le> x / q" using q by (simp add: divide_right_mono)
    moreover have "power_int 2 e / q = power_int 2 (int p - 1)"
      by (simp add: q_def power_int_diff power_int_add)
    moreover have "(1::rat) \<le> power_int 2 (int p - 1)" using p by (intro one_le_power_int) simp_all
    ultimately show ?thesis by linarith
  next
    case False
    then have "e = emin" by (simp add: e_def)
    then have "q = 2 * power_int 2 (emin - int p)"
      by (simp add: q_def power_int_add)
    then show ?thesis using x q by (simp add: pos_less_divide_eq)
  qed
  then have "1 \<le> round_half_even (x / q)" by (rule round_half_even_ge1)
  then have "0 < of_int (round_half_even (x / q)) * q" using q by simp
  then show ?thesis using x0 by (simp add: float_round_def Let_def e_def q_def)
qed

lemma float_round_le:
  assumes x0: "0 < x" and x: "x < power_int 2 k" and k: "emin < k"
  shows "0 \<le> float_round p emin x \<and> float_round p emin x \<le> power_int 2 k"
proof -
  define e where "e = max emin (exponent x)"
  define q :: rat where "q = power_int 2 (e - int p + 1)"
  have q: "0 < q" by (simp add: q_def)
  have pk: "power_int 2 (exponent x) < (power_int 2 k :: rat)" using exponent_bounds [OF x0] x by simp
  have "exponent x < k"
  proof (rule ccontr)
    assume "\<not> exponent x < k"
    then have "(power_int 2 k :: rat) \<le> power_int 2 (exponent x)"
      by (intro power_int_increasing) simp_all
    with pk show False by simp
  qed
  then have ek: "e + 1 \<le> k" using k by (simp add: e_def)
  have "x < power_int 2 (exponent x + 1)" using exponent_bounds [OF x0] by simp
  also have "\<dots> \<le> power_int 2 (e + 1)" by (intro power_int_increasing) (simp_all add: e_def)
  finally have xe: "x < power_int 2 (e + 1)" .
  have "(power_int 2 ((e + 1) - (e - int p + 1)) :: rat) = power_int 2 (e + 1) / q"
    unfolding q_def by (rule power_int_diff) simp
  moreover have "(e + 1) - (e - int p + 1) = int p" by simp
  ultimately have pe: "power_int 2 (e + 1) / q = 2 ^ p" by (simp only: power_int_of_nat)
  have "x / q < power_int 2 (e + 1) / q" using xe q by (simp add: divide_strict_right_mono)
  then have "x / q \<le> of_int (2 ^ p)" unfolding pe by simp
  then have m: "round_half_even (x / q) \<le> 2 ^ p" by (rule round_half_even_le)
  have "0 \<le> x / q" using x0 q by simp
  then have m0: "0 \<le> round_half_even (x / q)" by (simp add: round_half_even_def Let_def)
  have "of_int (round_half_even (x / q)) * q \<le> of_int (2 ^ p) * q"
  proof (rule mult_right_mono)
    show "(of_int (round_half_even (x / q)) :: rat) \<le> of_int (2 ^ p)"
      using m by (simp only: of_int_le_iff)
    show "0 \<le> q" using q by simp
  qed
  also have "of_int (2 ^ p) * q = power_int 2 (e + 1)" using pe q by (simp add: field_simps)
  also have "\<dots> \<le> power_int 2 k" using ek by (intro power_int_increasing) simp_all
  finally have "of_int (round_half_even (x / q)) * q \<le> power_int 2 k" .
  moreover have "0 \<le> of_int (round_half_even (x / q)) * q" using m0 q by simp
  ultimately show ?thesis using x0 by (simp add: float_round_def Let_def e_def q_def)
qed

section \<open>Properties of experiments/fastmri/utils.py\<close>

lemma those_map_Some:
  assumes "\<And>a. a \<in> set as \<Longrightarrow> f a = Some (g a)"
  shows "those (map f as) = Some (map g as)"
  using assms by (induction as) simp_all

lemma array_split2_even:
  assumes "even (length xs)"
  shows "array_split2 xs = (take (length xs div 2) xs, drop (length xs div 2) xs)"
  using assms by (simp add: array_split2_def Let_def)

lemma map2_Complex_Re_Im: "map2 Complex (map Re zs) (map Im zs) = zs"
  by (induction zs) simp_all

lemma Re_Im_map2_Complex:
  assumes "length re = length im"
  shows "map Re (map2 Complex re im) = re \<and> map Im (map2 Complex re im) = im"
  using assms by (induction re im rule: list_induct2) simp_all

lemma complex2real_real2complex:
  assumes "last_axis_even x"
  shows "\<exists>z. real2complex x = Some z \<and> complex2real z = x"
  using assms
proof (induction x)
  case (Vec xs)
  let ?k = "length xs div 2"
  have len: "length (take ?k xs) = length (drop ?k xs)"
    using Vec by (auto elim: evenE)
  have "real2complex (Vec xs) = Some (Vec (map2 Complex (take ?k xs) (drop ?k xs)))"
    using Vec len by (simp add: array_split2_even lax_complex_def)
  moreover have "complex2real (Vec (map2 Complex (take ?k xs) (drop ?k xs))) = Vec xs"
    using Re_Im_map2_Complex [OF len] by simp
  ultimately show ?case by blast
next
  case (Nd as)
  have each: "\<forall>a\<in>set as. \<exists>z. real2complex a = Some z \<and> complex2real z = a"
    using Nd by (simp add: list_all_iff)
  then obtain g where g: "\<forall>a\<in>set as. real2complex a = Some (g a) \<and> complex2real (g a) = a"
    by metis
  have "those (map real2complex as) = Some (map g as)"
    using g by (intro those_map_Some) simp
  moreover have "map complex2real (map g as) = as"
    using g by (simp add: map_idI)
  ultimately show ?case by simp
qed

lemma real2complex_complex2real: "real2complex (complex2real z) = Some z"
proof (induction z)
  case (Vec zs)
  have "array_split2 (map Re zs @ map Im zs) = (map Re zs, map Im zs)"
    by (simp add: array_split2_def Let_def)
  then show ?case by (simp add: lax_complex_def map2_Complex_Re_Im)
next
  case (Nd as)
  have "those (map real2complex (map complex2real as)) = Some (map id as)"
    unfolding map_map using Nd by (intro those_map_Some) simp
  then show ?case by simp
qed

text \<open>
  C9: \<open>real2complex\<close> and \<open>complex2real\<close> are mutually inverse. For every real array
  whose last axis has even length, \<open>real2complex\<close> returns a complex array that
  \<open>complex2real\<close> maps back to the input; and for every complex array \<open>z\<close>,
  \<open>real2complex (complex2real z)\<close> returns \<open>z\<close>.
\<close>

theorem real2complex_complex2real_inverse:
  "(last_axis_even x \<longrightarrow> map_option complex2real (real2complex x) = Some x)
   \<and> real2complex (complex2real z) = Some z"
  using complex2real_real2complex [of x] real2complex_complex2real [of z] by auto

theorem real2complex_complex2real_inverse_witness:
  "last_axis_even (Nd [Vec [1, 2, 3, 4], Vec [5, 6, 7, 8]])
   \<and> map_option complex2real (real2complex (Nd [Vec [1, 2, 3, 4], Vec [5, 6, 7, 8]]))
     = Some (Nd [Vec [1, 2, 3, 4], Vec [5, 6, 7, 8]])
   \<and> real2complex (complex2real (Nd [Vec [Complex 1 2, Complex 3 4]]))
     = Some (Nd [Vec [Complex 1 2, Complex 3 4]])"
  using real2complex_complex2real_inverse
    [of "Nd [Vec [1, 2, 3, 4], Vec [5, 6, 7, 8]]" "Nd [Vec [Complex 1 2, Complex 3 4]]"]
  by simp

lemma math_ceil_60_small:
  "list_all (\<lambda>r. math_ceil (float_round 53 (- 1022) (60 / of_int r)) = \<lceil>60 / (of_int r :: rat)\<rceil>)
     [1..60]"
  by code_simp

lemma truediv_60_small:
  assumes "1 \<le> r" and "r \<le> 60"
  shows "\<exists>q. truediv 60 r = Inr q \<and> math_ceil q = \<lceil>60 / (of_int r :: rat)\<rceil>"
proof -
  define x :: rat where "x = 60 / of_int r"
  have r: "(1::rat) \<le> of_int r" using assms by simp
  have x0: "0 < x" using r by (simp add: x_def)
  have "x \<le> 60" using r by (simp add: x_def divide_le_eq)
  then have x6: "x < power_int 2 6" by simp
  have "float_round 53 (- 1022) x \<le> 64" "0 \<le> float_round 53 (- 1022) x"
    using float_round_le [OF x0 x6, of "- 1022" 53] by simp_all
  then have "\<bar>float_round 53 (- 1022) x\<bar> < 2 ^ 1024" by simp
  then have "truediv 60 r = Inr (float_round 53 (- 1022) x)"
    using assms by (simp add: truediv_def Let_def x_def)
  moreover have "math_ceil (float_round 53 (- 1022) x) = \<lceil>x\<rceil>"
    using math_ceil_60_small assms by (simp add: list_all_iff x_def)
  ultimately show ?thesis by (simp add: x_def)
qed

lemma truediv_60_large:
  assumes "60 < r" and "r < 60 * 2 ^ 1075"
  shows "\<exists>q. truediv 60 r = Inr q \<and> math_ceil q = 1"
proof -
  define x :: rat where "x = 60 / of_int r"
  define N :: rat where "N = 2 ^ 1075"
  have N: "0 < N" by (simp add: N_def)
  have "(of_int 60 :: rat) < of_int r" "(of_int r :: rat) < of_int (60 * 2 ^ 1075)"
    using assms by (simp_all only: of_int_less_iff)
  then have r: "(60::rat) < of_int r" "(of_int r :: rat) < 60 * N"
    by (simp_all add: N_def)
  have x1: "x < 1" using r by (simp add: x_def)
  have x0: "0 < x" using r by (simp add: x_def)
  have "inverse N < x" using r N unfolding x_def by (simp add: field_simps)
  moreover have "power_int 2 (- 1022 - int 53) = inverse N"
  proof -
    have "- 1022 - int 53 = - int 1075" by simp
    then have "power_int (2::rat) (- 1022 - int 53) = power_int 2 (- int 1075)" by (simp only:)
    also have "\<dots> = inverse (power_int 2 (int 1075))" by (rule power_int_minus)
    also have "\<dots> = inverse (2 ^ 1075)" by (simp only: power_int_of_nat)
    finally show ?thesis unfolding N_def .
  qed
  ultimately have xs: "power_int 2 (- 1022 - int 53) < x" by simp
  have pos: "0 < float_round 53 (- 1022) x" using xs by (rule float_round_pos) simp
  have le: "float_round 53 (- 1022) x \<le> 1"
    using float_round_le [of x 0 "- 1022" 53] x0 x1 by simp
  have "\<bar>float_round 53 (- 1022) x\<bar> < 2 ^ 1024" using pos le by simp
  then have "truediv 60 r = Inr (float_round 53 (- 1022) x)"
    using assms by (simp add: truediv_def Let_def x_def)
  moreover have "math_ceil (float_round 53 (- 1022) x) = 1"
    using pos le by (simp add: math_ceil_def ceiling_eq_iff)
  ultimately show ?thesis by blast
qed

lemma truediv_threshold:
  assumes "1 \<le> r"
  shows "\<exists>t. truediv 200 (320 * r - 120) = Inr t"
proof -
  define x :: rat where "x = 200 / of_int (320 * r - 120)"
  have r: "(1::rat) \<le> of_int r" using assms by simp
  have x0: "0 < x" using r by (simp add: x_def)
  have "x \<le> 1" using r by (simp add: x_def)
  then have x2: "x < power_int 2 1" by simp
  have "float_round 53 (- 1022) x \<le> 2" "0 \<le> float_round 53 (- 1022) x"
    using float_round_le [OF x0 x2, of "- 1022" 53] by simp_all
  then have "\<bar>float_round 53 (- 1022) x\<bar> < 2 ^ 1024" by simp
  then show ?thesis using assms by (simp add: truediv_def Let_def x_def)
qed

lemma float_round_zero:
  assumes x0: "0 < x" and x: "x \<le> power_int 2 (emin - int p)"
  shows "float_round p emin x = 0"
proof -
  have "power_int 2 (exponent x) \<le> (power_int 2 (emin - int p) :: rat)"
    using exponent_bounds [OF x0] x by simp
  have "exponent x \<le> emin"
  proof (rule ccontr)
    assume "\<not> exponent x \<le> emin"
    then have "emin - int p + 1 \<le> exponent x" by simp
    then have "(power_int 2 (emin - int p + 1) :: rat) \<le> power_int 2 (exponent x)"
      by (intro power_int_increasing) simp_all
    moreover have "(power_int 2 (emin - int p) :: rat) < power_int 2 (emin - int p + 1)"
      by (intro power_int_strict_increasing) simp_all
    ultimately show False using exponent_bounds [OF x0] x by simp
  qed
  then have e: "max emin (exponent x) = emin" by simp
  define q :: rat where "q = power_int 2 (emin - int p + 1)"
  have q: "0 < q" by (simp add: q_def)
  have "q = 2 * power_int 2 (emin - int p)" by (simp add: q_def power_int_add)
  then have half: "x / q \<le> 1 / 2" using x q by (simp add: pos_divide_le_eq)
  have pos: "0 < x / q" using x0 q by simp
  have "of_int 0 \<le> x / q \<and> x / q < of_int 0 + 1" using half pos by linarith
  then have f: "\<lfloor>x / q\<rfloor> = 0" by (simp only: floor_eq_iff)
  have "round_half_even (x / q) = 0"
    unfolding round_half_even_def Let_def f using half by auto
  then show ?thesis using x0 e by (simp add: float_round_def Let_def q_def)
qed

lemma truediv_underflow:
  assumes a: "0 < a" and b: "a * 2 ^ 1075 \<le> b"
  shows "truediv a b = Inr 0"
proof -
  define N :: rat where "N = 2 ^ 1075"
  have N: "0 < N" by (simp add: N_def)
  have "(of_int (a * 2 ^ 1075) :: rat) \<le> of_int b" using b by (simp only: of_int_le_iff)
  then have bN: "of_int a * N \<le> (of_int b :: rat)" by (simp add: N_def)
  have a': "(0::rat) < of_int a" using a by simp
  have b0: "(0::rat) < of_int b" using bN a' N by (meson less_le_trans mult_pos_pos)
  define x :: rat where "x = of_int a / of_int b"
  have x0: "0 < x" using a' b0 by (simp add: x_def)
  have "x \<le> inverse N" using bN b0 N unfolding x_def by (simp add: field_simps)
  moreover have "power_int 2 (- 1022 - int 53) = inverse N"
  proof -
    have "- 1022 - int 53 = - int 1075" by simp
    then have "power_int (2::rat) (- 1022 - int 53) = power_int 2 (- int 1075)" by (simp only:)
    also have "\<dots> = inverse (power_int 2 (int 1075))" by (rule power_int_minus)
    also have "\<dots> = inverse (2 ^ 1075)" by (simp only: power_int_of_nat)
    finally show ?thesis unfolding N_def .
  qed
  ultimately have "x \<le> power_int 2 (- 1022 - int 53)" by simp
  then have "float_round 53 (- 1022) x = 0" using x0 by (intro float_round_zero)
  moreover have "b \<noteq> 0" using b0 by auto
  ultimately show ?thesis by (simp add: truediv_def Let_def x_def)
qed

lemma set_rows_True_length: "length (set_rows_True lo hi rows) = length rows"
  by (simp add: set_rows_True_def Let_def)

lemma set_rows_True_inner:
  assumes "list_all (\<lambda>v. length v = d) rows"
  shows "list_all (\<lambda>v. length v = d) (set_rows_True lo hi rows)"
  using assms
  by (auto simp: set_rows_True_def Let_def list_all_iff in_set_enumerate_eq)

lemma set_rows_True_band:
  assumes "slice_index (length rows) lo \<le> i" and "i < slice_index (length rows) hi"
    and "i < length rows" and "j < length (rows ! i)"
  shows "set_rows_True lo hi rows ! i ! j"
  using assms by (simp add: set_rows_True_def Let_def nth_enumerate_eq)

lemma set_rows_True_empty:
  assumes "hi \<le> lo" and "0 \<le> hi"
  shows "set_rows_True lo hi rows = rows"
proof -
  have "slice_index (length rows) hi \<le> slice_index (length rows) lo"
    using assms by (simp add: slice_index_def)
  then have "map (\<lambda>(i, row). if slice_index (length rows) lo \<le> i \<and> i < slice_index (length rows) hi
        then map (\<lambda>_. True) row else row) (enumerate 0 rows) = map snd (enumerate 0 rows)"
    by (intro map_cong) auto
  then show ?thesis by (simp add: set_rows_True_def Let_def)
qed

lemma random_uniform_shape: "has_shape3 (random_uniform draw key (d0, d1, d2)) d0 d1 d2"
  by (simp add: random_uniform_def has_shape3_def list_all_iff)

lemma ceil_60_bounds:
  assumes "1 \<le> r"
  shows "1 \<le> \<lceil>60 / (of_int r :: rat)\<rceil> \<and> \<lceil>60 / (of_int r :: rat)\<rceil> \<le> 60"
proof -
  have r: "(1::rat) \<le> of_int r" using assms by simp
  have "0 < 60 / (of_int r :: rat)" using r by simp
  then have lo: "1 \<le> \<lceil>60 / (of_int r :: rat)\<rceil>" by linarith
  have "60 / (of_int r :: rat) \<le> 60" using r by (simp add: divide_le_eq)
  then have "\<lceil>60 / (of_int r :: rat)\<rceil> \<le> 60" by (simp add: ceiling_le_iff)
  with lo show ?thesis by simp
qed

lemma math_ceil_60:
  assumes "1 \<le> r" and "r < 60 * 2 ^ 1075"
  shows "\<exists>q. truediv 60 r = Inr q \<and> math_ceil q = \<lceil>60 / (of_int r :: rat)\<rceil>"
proof (cases "r \<le> 60")
  case True
  then show ?thesis using assms truediv_60_small by simp
next
  case False
  then have r: "60 < r" by simp
  then have "(60::rat) < of_int r" by simp
  then have "0 < 60 / (of_int r :: rat)" "60 / (of_int r :: rat) \<le> 1" by simp_all
  then have "\<lceil>60 / (of_int r :: rat)\<rceil> = 1" by (simp add: ceiling_eq_iff)
  then show ?thesis using truediv_60_large [OF r assms(2)] by simp
qed

text \<open>
  C10, with the bound on \<open>r\<close> that it needs: for every acceleration factor \<open>r\<close> with
  \<open>1 \<le> r < 60 * 2^1075\<close> and every key (also \<open>None\<close>), whatever the random draw gives,
  \<open>make_mask\<close> returns a boolean array of shape \<open>(1, 320, 1)\<close> whose entries with row index
  from \<open>160 - ceil(60/r)\<close> up to (excluding) \<open>160 + ceil(60/r)\<close> are all \<open>True\<close>, the
  ceiling being that of the exact quotient.
\<close>

theorem make_mask_center_band:
  assumes r: "1 \<le> r" and R: "r < 60 * 2 ^ 1075"
  shows "\<exists>A. make_mask draw r key = Inr A \<and> has_shape3 A 1 320 1
    \<and> (\<forall>i. 160 - \<lceil>60 / (of_int r :: rat)\<rceil> \<le> int i \<and> int i < 160 + \<lceil>60 / (of_int r :: rat)\<rceil>
          \<longrightarrow> A ! 0 ! i ! 0)"
proof -
  define c where "c = \<lceil>60 / (of_int r :: rat)\<rceil>"
  have c: "1 \<le> c" "c \<le> 60" using ceil_60_bounds [OF r] by (simp_all add: c_def)
  obtain thr where thr: "truediv 200 (320 * r - 120) = Inr thr"
    using truediv_threshold [OF r] by blast
  obtain q where q: "truediv 60 r = Inr q" "math_ceil q = c"
    using math_ceil_60 [OF r R] by (auto simp: c_def)
  have "has_shape3 (random_uniform draw key (1, 320, 1)) 1 320 1"
    by (rule random_uniform_shape)
  then obtain rows0 where rows0: "random_uniform draw key (1, 320, 1) = [rows0]"
    "length rows0 = 320" "list_all (\<lambda>v. length v = 1) rows0"
    by (cases "random_uniform draw key (1, 320, 1)") (auto simp: has_shape3_def)
  define rows where "rows = map (map (\<lambda>u. less_float u (float32 thr))) rows0"
  have rows: "length rows = 320" "list_all (\<lambda>v. length v = 1) rows"
    using rows0 by (simp_all add: rows_def list_all_iff)
  have mm: "make_mask draw r key = Inr [set_rows_True (160 - c) (160 + c) rows]"
    using thr q rows0 by (simp add: make_mask_def Let_def rows_def)
  have shape: "has_shape3 [set_rows_True (160 - c) (160 + c) rows] 1 320 1"
    using rows by (simp add: has_shape3_def set_rows_True_length set_rows_True_inner)
  have band: "set_rows_True (160 - c) (160 + c) rows ! i ! 0"
    if "160 - c \<le> int i" "int i < 160 + c" for i
  proof (rule set_rows_True_band)
    show "slice_index (length rows) (160 - c) \<le> i"
      using that c rows by (simp add: slice_index_def)
    show "i < slice_index (length rows) (160 + c)"
      using that c rows by (simp add: slice_index_def)
    show i: "i < length rows" using that c rows by simp
    show "0 < length (rows ! i)"
      using rows i by (simp add: list_all_length)
  qed
  show ?thesis using mm shape band by (simp add: c_def)
qed

theorem make_mask_center_band_witness:
  "(1::int) \<le> 4 \<and> (4::int) < 60 * 2 ^ 1075
   \<and> (\<exists>A. make_mask (\<lambda>(k::nat option) i j l. 1 / 2) 4 None = Inr A
        \<and> has_shape3 A 1 320 1 \<and> A ! 0 ! 145 ! 0 \<and> A ! 0 ! 174 ! 0)"
proof -
  let ?draw = "\<lambda>(k::nat option) (i::nat) (j::nat) (l::nat). 1 / 2 :: rat"
  have r: "(1::int) \<le> 4" by simp
  have R: "(4::int) < 60 * 2 ^ 1075" by simp
  have c: "\<lceil>60 / (of_int 4 :: rat)\<rceil> = 15" by simp
  obtain A where A: "make_mask ?draw 4 None = Inr A" "has_shape3 A 1 320 1"
    and band: "\<And>i. 160 - 15 \<le> int i \<and> int i < 160 + 15 \<Longrightarrow> A ! 0 ! i ! 0"
    using make_mask_center_band [OF r R, of ?draw None] unfolding c by blast
  have "A ! 0 ! 145 ! 0" "A ! 0 ! 174 ! 0"
    using band [of 145] band [of 174] by simp_all
  with r R A show ?thesis by blast
qed

lemma make_mask_underflow:
  assumes "60 * 2 ^ 1075 \<le> r"
  shows "make_mask (\<lambda>k i j l. 1 / 2) r key = Inr [replicate 320 [False]]"
proof -
  have q: "truediv 60 r = Inr 0" using assms by (intro truediv_underflow) simp_all
  have "(0::int) < 2 ^ 1075" by simp
  then have "200 * 2 ^ 1075 \<le> 320 * r - 120" using assms by linarith
  then have thr: "truediv 200 (320 * r - 120) = Inr 0" by (intro truediv_underflow) simp_all
  have f: "float32 0 = Finite 0" by (simp add: float32_def float_round_def)
  have A: "random_uniform (\<lambda>k i j l. 1 / 2) key (1, 320, 1) = [replicate 320 [1 / 2]]"
    by (simp add: random_uniform_def map_replicate_const)
  show ?thesis
    unfolding make_mask_def Let_def A thr q
    by (simp add: f math_ceil_def set_rows_True_empty)
qed

text \<open>
  C10 as stated, for every \<open>r \<ge> 1\<close>, fails at \<open>r = 60 * 2^1075\<close>: the float \<open>60 / r\<close> is
  \<open>0.0\<close>, the slice \<open>160:160\<close> is empty and the threshold is \<open>0.0\<close>, so a draw of
  \<open>1/2\<close> everywhere gives a mask that is \<open>False\<close> everywhere, although \<open>ceil(60/r) = 1\<close>
  puts rows 159 and 160 in the band.
\<close>

theorem make_mask_center_band_counterexample:
  "(1::int) \<le> 60 * 2 ^ 1075
   \<and> (\<exists>A. make_mask (\<lambda>k i j l. 1 / 2) (60 * 2 ^ 1075) (None :: nat option) = Inr A
        \<and> A = [replicate 320 [False]]
        \<and> 160 - \<lceil>60 / (of_int (60 * 2 ^ 1075) :: rat)\<rceil> \<le> int 159
        \<and> int 159 < 160 + \<lceil>60 / (of_int (60 * 2 ^ 1075) :: rat)\<rceil>
        \<and> \<not> A ! 0 ! 159 ! 0)"
proof -
  have "(0::rat) < 60 / of_int (60 * 2 ^ 1075)" "60 / (of_int (60 * 2 ^ 1075) :: rat) \<le> 1"
    by simp_all
  then have "\<lceil>60 / (of_int (60 * 2 ^ 1075) :: rat)\<rceil> = 1" by (simp only: ceiling_eq_iff, simp)
  moreover have "(1::int) \<le> 60 * 2 ^ 1075" by simp
  ultimately show ?thesis using make_mask_underflow [of "60 * 2 ^ 1075" None] by simp
qed

section \<open>Properties of experiments/cifar/train.py\<close>

lemma run_append:
  "run X (xs @ ys) s =
     (case run X xs s of (None, s1) \<Rightarrow> run X ys s1 | (Some e, s1) \<Rightarrow> (Some e, s1))"
proof (induction xs arbitrary: s)
  case Nil
  show ?case by simp
next
  case (Cons c cs)
  show ?case
  proof (cases "exec X c s")
    case (Inl e)
    then show ?thesis by simp
  next
    case (Inr s1)
    then show ?thesis using Cons.IH [of s1] by simp
  qed
qed

lemma run_fails_before:
  assumes "run X cs s = (Some e, s')"
  shows "\<exists>k<length cs. run X (take k cs) s = (None, s')"
  using assms
proof (induction cs arbitrary: s)
  case Nil
  then show ?case by simp
next
  case (Cons c cs)
  show ?case
  proof (cases "exec X c s")
    case (Inl e1)
    with Cons.prems have "s' = s" by simp
    then have "run X (take 0 (c # cs)) s = (None, s')" by simp
    then show ?thesis by blast
  next
    case (Inr s1)
    with Cons.prems have "run X cs s1 = (Some e, s')" by simp
    from Cons.IH [OF this] obtain k where k: "k < length cs" "run X (take k cs) s1 = (None, s')"
      by blast
    then have "run X (take (Suc k) (c # cs)) s = (None, s')" using Inr by simp
    moreover have "Suc k < length (c # cs)" using k by simp
    ultimately show ?thesis by blast
  qed
qed

text \<open>Commands other than \<open>Dump\<close> leave the files alone and log no \<open>Dumped\<close> event.\<close>

lemma exec_no_dump:
  assumes "\<not> is_dump c" and "exec X c s = Inr s'"
  shows "files s' = files s \<and> (\<exists>es. trace s' = trace s @ es \<and> filter is_dumped es = [])"
proof (cases c)
  case (LoadPrevious k)
  then show ?thesis using assms
    by (auto simp: Let_def split: option.splits)
  next
  case FitMoments
  then show ?thesis using assms
    by (auto simp: Let_def split: option.splits)
  next
  case Generate
  then show ?thesis using assms
    by (auto simp: Let_def split: option.splits)
  next
  case ModelPrevious
  then show ?thesis using assms
    by (auto simp: Let_def split: option.splits)
  next
  case MakeModel
  then show ?thesis using assms
    by (auto simp: Let_def split: option.splits)
  next
  case SetMu
  then show ?thesis using assms
    by (auto simp: Let_def split: option.splits)
  next
  case (Train b)
  then show ?thesis using assms
    by (auto simp: Let_def split: option.splits)
  next
  case Partition
  then show ?thesis using assms
    by (auto simp: Let_def split: option.splits)
  next
  case SgdStep
  then show ?thesis using assms
    by (auto simp: Let_def split: option.splits)
  next
  case Validate
  then show ?thesis using assms
    by (auto simp: Let_def split: option.splits)
  next
  case Rebuild
  then show ?thesis using assms
    by (auto simp: Let_def split: option.splits)
  next
  case Sample
  then show ?thesis using assms
    by (auto simp: Let_def split: option.splits)
  next
  case LogMetrics
  then show ?thesis using assms
    by (auto simp: Let_def split: option.splits)
  next
  case (Dump k)
  then show ?thesis using assms
    by (auto simp: Let_def split: option.splits)
qed

lemma run_no_dump:
  assumes "list_all (\<lambda>c. \<not> is_dump c) cs" and "run X cs s = (r, s')"
  shows "files s' = files s \<and> (\<exists>es. trace s' = trace s @ es \<and> filter is_dumped es = [])"
  using assms
proof (induction cs arbitrary: s)
  case Nil
  then show ?case by simp
next
  case (Cons c cs)
  show ?case
  proof (cases "exec X c s")
    case (Inl e)
    with Cons.prems show ?thesis by simp
  next
    case (Inr s1)
    from Cons.prems have nd: "\<not> is_dump c" and rest: "list_all (\<lambda>c. \<not> is_dump c) cs"
      by simp_all
    from exec_no_dump [OF nd Inr] obtain es1 where
      1: "files s1 = files s" "trace s1 = trace s @ es1" "filter is_dumped es1 = []" by blast
    from Cons.prems Inr have "run X cs s1 = (r, s')" by simp
    from Cons.IH [OF rest this] obtain es2 where
      2: "files s' = files s1" "trace s' = trace s1 @ es2" "filter is_dumped es2 = []" by blast
    from 1 2 have "trace s' = trace s @ (es1 @ es2)" "filter is_dumped (es1 @ es2) = []"
      by simp_all
    with 1 2 show ?thesis by metis
  qed
qed

text \<open>Each \<open>SgdStep\<close> logs one \<open>Stepped\<close> event, and no other command logs one.\<close>

lemma exec_stepped:
  assumes "exec X c s = Inr s'"
  shows "\<exists>es. trace s' = trace s @ es
    \<and> length (filter is_stepped es) = (if c = SgdStep then 1 else 0)"
proof (cases c)
  case (LoadPrevious k)
  then show ?thesis using assms
    by (auto simp: Let_def split: option.splits)
  next
  case FitMoments
  then show ?thesis using assms
    by (auto simp: Let_def split: option.splits)
  next
  case Generate
  then show ?thesis using assms
    by (auto simp: Let_def split: option.splits)
  next
  case ModelPrevious
  then show ?thesis using assms
    by (auto simp: Let_def split: option.splits)
  next
  case MakeModel
  then show ?thesis using assms
    by (auto simp: Let_def split: option.splits)
  next
  case SetMu
  then show ?thesis using assms
    by (auto simp: Let_def split: option.splits)
  next
  case (Train b)
  then show ?thesis using assms
    by (auto simp: Let_def split: option.splits)
  next
  case Partition
  then show ?thesis using assms
    by (auto simp: Let_def split: option.splits)
  next
  case SgdStep
  then show ?thesis using assms
    by (auto simp: Let_def split: option.splits)
  next
  case Validate
  then show ?thesis using assms
    by (auto simp: Let_def split: option.splits)
  next
  case Rebuild
  then show ?thesis using assms
    by (auto simp: Let_def split: option.splits)
  next
  case Sample
  then show ?thesis using assms
    by (auto simp: Let_def split: option.splits)
  next
  case LogMetrics
  then show ?thesis using assms
    by (auto simp: Let_def split: option.splits)
  next
  case (Dump k)
  then show ?thesis using assms
    by (auto simp: Let_def split: option.splits)
qed

lemma run_stepped:
  assumes "run X cs s = (None, s')"
  shows "\<exists>es. trace s' = trace s @ es
    \<and> length (filter is_stepped es) = count_list cs SgdStep"
  using assms
proof (induction cs arbitrary: s)
  case Nil
  then show ?case by simp
next
  case (Cons c cs)
  show ?case
  proof (cases "exec X c s")
    case (Inl e)
    with Cons.prems show ?thesis by simp
  next
    case (Inr s1)
    from exec_stepped [OF Inr] obtain es1 where
      1: "trace s1 = trace s @ es1"
         "length (filter is_stepped es1) = (if c = SgdStep then 1 else 0)" by blast
    from Cons.prems Inr have "run X cs s1 = (None, s')" by simp
    from Cons.IH [OF this] obtain es2 where
      2: "trace s' = trace s1 @ es2" "length (filter is_stepped es2) = count_list cs SgdStep"
      by blast
    from 1 2 have "trace s' = trace s @ (es1 @ es2)"
      "length (filter is_stepped (es1 @ es2)) = count_list (c # cs) SgdStep"
      by simp_all
    then show ?thesis by blast
  qed
qed

lemma count_list_append: "count_list (xs @ ys) x = count_list xs x + count_list ys x"
  by (induction xs) simp_all

lemma count_list_replicate: "count_list (replicate n y) x = (if x = y then n else 0)"
  by (induction n) auto

lemma count_epoch_cmds: "count_list (epoch_cmds cfg e) SgdStep = train_batches cfg"
  by (simp add: epoch_cmds_def count_list_append count_list_replicate)

lemma count_epochs: "count_list (concat (map (epoch_cmds cfg) es)) SgdStep = length es * train_batches cfg"
  by (induction es) (simp_all add: count_list_append count_epoch_cmds)

lemma count_train_cmds: "count_list (train_cmds cfg lap) SgdStep = epochs cfg * train_batches cfg"
  by (simp add: train_cmds_def count_list_append count_epochs)

lemma no_dump_epoch: "list_all (\<lambda>c. \<not> is_dump c) (epoch_cmds cfg e)"
  by (auto simp: epoch_cmds_def list_all_iff)

lemma no_dump_epochs: "list_all (\<lambda>c. \<not> is_dump c) (concat (map (epoch_cmds cfg) es))"
  by (induction es) (simp_all add: no_dump_epoch)

lemma train_cmds_body: "train_cmds cfg lap = train_body cfg lap @ [Dump lap]"
  by (simp add: train_body_def train_cmds_def butlast_append)

lemma no_dump_body: "list_all (\<lambda>c. \<not> is_dump c) (train_body cfg lap)"
  by (simp add: train_body_def train_cmds_def butlast_append no_dump_epochs)

lemma list_all_take: "list_all P xs \<Longrightarrow> list_all P (take n xs)"
  by (auto simp: list_all_iff dest: in_set_takeD)

lemma no_dump_take:
  assumes "n < length (train_cmds cfg lap)"
  shows "list_all (\<lambda>c. \<not> is_dump c) (take n (train_cmds cfg lap))"
proof -
  have "n \<le> length (train_body cfg lap)" using assms by (simp add: train_cmds_body)
  then have "take n (train_cmds cfg lap) = take n (train_body cfg lap)"
    by (simp add: train_cmds_body)
  then show ?thesis using no_dump_body by (simp add: list_all_take)
qed

lemma exec_flags:
  assumes "flag_known c a" and "agrees a s" and "exec X c s = Inr s'"
  shows "agrees (known_after c a) s' \<and> (\<exists>es. trace s' = trace s @ es \<and> list_all flag_respected es)"
proof -
  obtain st md where a: "a = (st, md)" by (cases a)
  show ?thesis
  proof (cases c)
    case (LoadPrevious k)
    then show ?thesis using assms unfolding a agrees_def
      by (auto simp: Let_def split: option.splits)
  next
    case FitMoments
    then show ?thesis using assms unfolding a agrees_def
      by (auto simp: Let_def split: option.splits)
  next
    case Generate
    then show ?thesis using assms unfolding a agrees_def
      by (auto simp: Let_def split: option.splits)
  next
    case ModelPrevious
    then show ?thesis using assms unfolding a agrees_def
      by (auto simp: Let_def split: option.splits)
  next
    case MakeModel
    then show ?thesis using assms unfolding a agrees_def
      by (auto simp: Let_def split: option.splits)
  next
    case SetMu
    then show ?thesis using assms unfolding a agrees_def
      by (auto simp: Let_def split: option.splits)
  next
    case (Train b)
    then show ?thesis using assms unfolding a agrees_def
      by (auto simp: Let_def split: option.splits)
  next
    case Partition
    then show ?thesis using assms unfolding a agrees_def
      by (auto simp: Let_def split: option.splits)
  next
    case SgdStep
    then show ?thesis using assms unfolding a agrees_def
      by (auto simp: Let_def split: option.splits)
  next
    case Validate
    then show ?thesis using assms unfolding a agrees_def
      by (auto simp: Let_def split: option.splits)
  next
    case Rebuild
    then show ?thesis using assms unfolding a agrees_def
      by (auto simp: Let_def split: option.splits)
  next
    case Sample
    then show ?thesis using assms unfolding a agrees_def
      by (auto simp: Let_def split: option.splits)
  next
    case LogMetrics
    then show ?thesis using assms unfolding a agrees_def
      by (auto simp: Let_def split: option.splits)
  next
    case (Dump k)
    then show ?thesis using assms unfolding a agrees_def
      by (auto simp: Let_def split: option.splits)
  qed
qed

lemma run_flags:
  assumes "flags_known a cs" and "agrees a s" and "run X cs s = (r, s')"
  shows "\<exists>es. trace s' = trace s @ es \<and> list_all flag_respected es"
  using assms
proof (induction cs arbitrary: a s)
  case Nil
  then show ?case by simp
next
  case (Cons c cs)
  show ?case
  proof (cases "exec X c s")
    case (Inl e)
    with Cons.prems show ?thesis by simp
  next
    case (Inr s1)
    from Cons.prems have k: "flag_known c a" and ks: "flags_known (known_after c a) cs"
      by simp_all
    from exec_flags [OF k Cons.prems(2) Inr] obtain es1 where
      1: "agrees (known_after c a) s1" "trace s1 = trace s @ es1" "list_all flag_respected es1"
      by blast
    from Cons.prems Inr have "run X cs s1 = (r, s')" by simp
    from Cons.IH [OF ks 1(1) this] obtain es2 where
      2: "trace s' = trace s1 @ es2" "list_all flag_respected es2" by blast
    from 1 2 have "trace s' = trace s @ (es1 @ es2)" "list_all flag_respected (es1 @ es2)"
      by simp_all
    then show ?thesis by blast
  qed
qed

lemma flags_known_take:
  assumes "flags_known a cs"
  shows "flags_known a (take n cs)"
  using assms
proof (induction cs arbitrary: a n)
  case Nil
  then show ?case by simp
next
  case (Cons c cs)
  then show ?case by (cases n) simp_all
qed

lemma flags_known_append:
  "flags_known a (xs @ ys) = (flags_known a xs \<and> flags_known (fold known_after xs a) ys)"
proof (induction xs arbitrary: a)
  case Nil
  show ?case by simp
next
  case (Cons c cs)
  show ?case using Cons.IH [of "known_after c a"] by simp
qed

lemma known_after_SgdStep: "known_after SgdStep a = a"
  by (cases a) simp

lemma known_after_Validate: "known_after Validate a = a"
  by (cases a) simp

lemma fold_known_replicate_SgdStep: "(known_after SgdStep ^^ n) a = a"
  by (induction n) (simp_all add: known_after_SgdStep)

lemma fold_known_replicate_Validate: "(known_after Validate ^^ n) a = a"
  by (induction n) (simp_all add: known_after_Validate)

lemma flags_known_replicate_SgdStep: "flags_known (Some True, md) (replicate n SgdStep)"
  by (induction n) simp_all

lemma flag_known_Validate: "flag_known Validate a"
  by (cases a) simp

lemma flags_known_replicate_Validate: "flags_known a (replicate n Validate)"
  by (induction n) (simp_all add: known_after_Validate flag_known_Validate)

lemma epoch_flags:
  "flags_known (Some True, md) (epoch_cmds cfg e)
   \<and> (\<exists>md'. fold known_after (epoch_cmds cfg e) (Some True, md) = (Some True, md'))"
  by (simp add: epoch_cmds_def flags_known_append fold_known_replicate_SgdStep
      fold_known_replicate_Validate flags_known_replicate_SgdStep flags_known_replicate_Validate)

lemma epochs_flags:
  "flags_known (Some True, md) (concat (map (epoch_cmds cfg) es))
   \<and> (\<exists>md'. fold known_after (concat (map (epoch_cmds cfg) es)) (Some True, md) = (Some True, md'))"
proof (induction es arbitrary: md)
  case Nil
  show ?case by simp
next
  case (Cons e es)
  from epoch_flags [of md cfg e] obtain md1 where
    1: "flags_known (Some True, md) (epoch_cmds cfg e)"
       "fold known_after (epoch_cmds cfg e) (Some True, md) = (Some True, md1)" by blast
  from Cons.IH [of md1] obtain md2 where
    2: "flags_known (Some True, md1) (concat (map (epoch_cmds cfg) es))"
       "fold known_after (concat (map (epoch_cmds cfg) es)) (Some True, md1) = (Some True, md2)"
    by blast
  from 1 2 show ?case by (simp add: flags_known_append)
qed

lemma train_cmds_flags: "flags_known (None, None) (train_cmds cfg lap)"
proof -
  let ?ep = "concat (map (epoch_cmds cfg) [0..<epochs cfg])"
  from epochs_flags [of "Some True" cfg "[0..<epochs cfg]"] obtain md where
    ep: "flags_known (Some True, Some True) ?ep"
        "fold known_after ?ep (Some True, Some True) = (Some True, md)" by blast
  then show ?thesis
    by (simp add: train_cmds_def flags_known_append)
qed

lemma agrees_unknown: "agrees (None, None) s"
  by (simp add: agrees_def)

lemma train_completed:
  assumes full: "run X (train_cmds cfg lap) s = (None, s')"
  shows "files s' = (files s)(lap \<mapsto> model s')
    \<and> (\<exists>es1. trace s' = trace s @ es1 @ [Dumped lap (model s')] \<and> filter is_dumped es1 = [])"
proof -
  have full': "run X (train_body cfg lap @ [Dump lap]) s = (None, s')"
    using full by (simp only: train_cmds_body)
  obtain r1 s1 where r1: "run X (train_body cfg lap) s = (r1, s1)"
    by (cases "run X (train_body cfg lap) s")
  have "r1 = None" using full' r1 by (cases r1) (simp_all add: run_append)
  with r1 have body: "run X (train_body cfg lap) s = (None, s1)" by simp
  then have s': "s' = s1\<lparr>files := (files s1)(lap \<mapsto> model s1),
      trace := trace s1 @ [Dumped lap (model s1)]\<rparr>"
    using full' by (simp add: run_append)
  from run_no_dump [OF no_dump_body body] obtain es1 where
    1: "files s1 = files s" "trace s1 = trace s @ es1" "filter is_dumped es1 = []" by blast
  have "files s' = (files s)(lap \<mapsto> model s')" using s' 1 by simp
  moreover have "trace s' = trace s @ es1 @ [Dumped lap (model s')]" using s' 1 by simp
  ultimately show ?thesis using 1 by blast
qed

text \<open>
  C7: the checkpoint of the lap is written exactly once, by a run of \<open>train\<close> that went
  through all its commands without an exception, as its last event and after the
  optimisation steps of all epochs; it is the only file that changes. A run that an
  exception stops earlier, whether raised by \<open>train\<close> or from outside after any number
  \<open>n\<close> of commands, changes no file, so the previous lap's checkpoint is as it was, and
  writes no checkpoint.
\<close>

theorem checkpoint_written_once:
  assumes "train_aborted X cfg lap n s = (r, s')"
  shows "\<exists>es. trace s' = trace s @ es \<and>
    (if r = None \<and> length (train_cmds cfg lap) \<le> n
     then files s' = (files s)(lap \<mapsto> model s')
        \<and> filter is_dumped es = [Dumped lap (model s')]
        \<and> last es = Dumped lap (model s')
        \<and> length (filter is_stepped es) = epochs cfg * train_batches cfg
     else files s' = files s \<and> filter is_dumped es = [])"
proof (cases "r = None \<and> length (train_cmds cfg lap) \<le> n")
  case True
  then have "take n (train_cmds cfg lap) = train_cmds cfg lap" by simp
  then have full: "run X (train_cmds cfg lap) s = (None, s')"
    using assms True by (simp add: train_aborted_def)
  from train_completed [OF full] obtain es1 where
    1: "files s' = (files s)(lap \<mapsto> model s')"
       "trace s' = trace s @ es1 @ [Dumped lap (model s')]" "filter is_dumped es1 = []"
    by blast
  from run_stepped [OF full] obtain es where
    2: "trace s' = trace s @ es" "length (filter is_stepped es) = count_list (train_cmds cfg lap) SgdStep"
    by blast
  have es: "es = es1 @ [Dumped lap (model s')]" using 1 2 by simp
  have "filter is_dumped es = [Dumped lap (model s')]" using es 1 by simp
  moreover have "last es = Dumped lap (model s')" using es by simp
  moreover have "length (filter is_stepped es) = epochs cfg * train_batches cfg"
    using 2 by (simp add: count_train_cmds)
  ultimately show ?thesis using True 1 2 by auto
next
  case False
  have "\<exists>k. k < length (train_cmds cfg lap) \<and> (\<exists>r0. run X (take k (train_cmds cfg lap)) s = (r0, s'))"
  proof (cases r)
    case None
    with False have "n < length (train_cmds cfg lap)" by simp
    then show ?thesis using assms by (auto simp: train_aborted_def)
  next
    case (Some e)
    with assms have "run X (take n (train_cmds cfg lap)) s = (Some e, s')"
      by (simp add: train_aborted_def)
    from run_fails_before [OF this] obtain k where
      k: "k < length (take n (train_cmds cfg lap))"
         "run X (take k (take n (train_cmds cfg lap))) s = (None, s')" by blast
    have kn: "k < n" "k < length (train_cmds cfg lap)" using k(1) by simp_all
    then have "min k n = k" by simp
    then have "run X (take k (train_cmds cfg lap)) s = (None, s')" using k(2) by (simp only: take_take)
    moreover have "k < length (train_cmds cfg lap)" using kn by simp
    ultimately show ?thesis by blast
  qed
  then obtain k r0 where k: "k < length (train_cmds cfg lap)"
    "run X (take k (train_cmds cfg lap)) s = (r0, s')" by blast
  from run_no_dump [OF no_dump_take [OF k(1)] k(2)] show ?thesis using False by auto
qed

theorem checkpoint_written_once_witness:
  "train_aborted numerics0 config0 1 77 state0
     = (None, snd (train_aborted numerics0 config0 1 77 state0))
   \<and> length (train_cmds config0 1) \<le> 77
   \<and> model (snd (train_aborted numerics0 config0 1 77 state0)) = \<lparr>weights = 693, training = False\<rparr>
   \<and> (\<exists>es. trace (snd (train_aborted numerics0 config0 1 77 state0)) = trace state0 @ es
        \<and> files (snd (train_aborted numerics0 config0 1 77 state0))
            = (files state0)(1 \<mapsto> model (snd (train_aborted numerics0 config0 1 77 state0)))
        \<and> filter is_dumped es = [Dumped 1 (model (snd (train_aborted numerics0 config0 1 77 state0)))]
        \<and> last es = Dumped 1 (model (snd (train_aborted numerics0 config0 1 77 state0)))
        \<and> length (filter is_stepped es) = 32)
   \<and> train_aborted numerics0 config0 1 76 state0
     = (None, snd (train_aborted numerics0 config0 1 76 state0))
   \<and> (\<exists>es. trace (snd (train_aborted numerics0 config0 1 76 state0)) = trace state0 @ es
        \<and> files (snd (train_aborted numerics0 config0 1 76 state0)) = files state0
        \<and> filter is_dumped es = [])"
proof -
  let ?s = "snd (train_aborted numerics0 config0 1 77 state0)"
  let ?t = "snd (train_aborted numerics0 config0 1 76 state0)"
  have a: "fst (train_aborted numerics0 config0 1 77 state0) = None" by code_simp
  have b: "length (train_cmds config0 1) = 77" by code_simp
  have c: "model ?s = \<lparr>weights = 693, training = False\<rparr>" by code_simp
  have d: "fst (train_aborted numerics0 config0 1 76 state0) = None" by code_simp
  have e: "epochs config0 * train_batches config0 = 32" by (simp add: config0_def)
  have A: "train_aborted numerics0 config0 1 77 state0 = (None, ?s)"
    using a by (simp add: prod_eq_iff)
  have D: "train_aborted numerics0 config0 1 76 state0 = (None, ?t)"
    using d by (simp add: prod_eq_iff)
  show ?thesis
    using checkpoint_written_once [OF A] checkpoint_written_once [OF D] A D b c e
    by simp
qed

text \<open>
  C8: in every run of \<open>train\<close>, complete or stopped after any number of commands and
  whatever the flags were before, every optimisation step is computed with a module
  whose training-mode flag is on, and the module sampled from at a periodic evaluation
  and the module written to the checkpoint have the flag off.
\<close>

theorem training_flag_set_before_use:
  assumes "train_aborted X cfg lap n s = (r, s')"
  shows "\<exists>es. trace s' = trace s @ es \<and> list_all flag_respected es"
  using run_flags [OF flags_known_take [OF train_cmds_flags] agrees_unknown] assms
  unfolding train_aborted_def by blast

theorem training_flag_set_before_use_witness:
  "train_aborted numerics0 config0 1 77 state0
     = (None, snd (train_aborted numerics0 config0 1 77 state0))
   \<and> list_all flag_respected (trace (snd (train_aborted numerics0 config0 1 77 state0)))
   \<and> length (filter is_stepped (trace (snd (train_aborted numerics0 config0 1 77 state0)))) = 32
   \<and> filter is_dumped (trace (snd (train_aborted numerics0 config0 1 77 state0)))
       = [Dumped 1 \<lparr>weights = 693, training = False\<rparr>]"
proof -
  let ?s = "snd (train_aborted numerics0 config0 1 77 state0)"
  have a: "fst (train_aborted numerics0 config0 1 77 state0) = None" by code_simp
  have A: "train_aborted numerics0 config0 1 77 state0 = (None, ?s)"
    using a by (simp add: prod_eq_iff)
  have t0: "trace state0 = []" by (simp add: state0_def)
  have b: "length (filter is_stepped (trace ?s)) = 32" by code_simp
  have c: "filter is_dumped (trace ?s) = [Dumped 1 \<lparr>weights = 693, training = False\<rparr>]"
    by code_simp
  show ?thesis
    using training_flag_set_before_use [OF A] A b c unfolding t0 by simp
qed

end
